theory Spec2Isabelle
  imports Main "HOL-Library.Word"
begin

section \<open>JavaScript strings\<close>

text \<open>
  A JavaScript string is a sequence of UTF-16 code units. String literals of the source
  are written with \<open>js\<close>, which maps every ASCII character to its code unit.
\<close>

type_synonym code_unit = "16 word"
type_synonym jsstring = "code_unit list"

definition js :: "string \<Rightarrow> jsstring" where
  "js s = map (\<lambda>c. of_nat (of_char c)) s"

definition hyphen :: code_unit where
  "hyphen = 0x2D"

text \<open>The character classes of the regular expressions of the source.\<close>

definition lower_alnum :: "code_unit \<Rightarrow> bool" where
  \<comment> \<open>\<open>[a-z0-9]\<close>\<close>
  "lower_alnum c = ((0x61 \<le> c \<and> c \<le> 0x7A) \<or> (0x30 \<le> c \<and> c \<le> 0x39))"

definition allowed :: "code_unit \<Rightarrow> bool" where
  \<comment> \<open>\<open>[a-z0-9-]\<close>\<close>
  "allowed c = (lower_alnum c \<or> c = hyphen)"

definition line_terminator :: "code_unit \<Rightarrow> bool" where
  \<comment> \<open>the code units the regular expression \<open>.\<close> does not match\<close>
  "line_terminator c = (c = 0x0A \<or> c = 0x0D \<or> c = 0x2028 \<or> c = 0x2029)"

subsection \<open>\<open>String.prototype.toLowerCase\<close>\<close>

text \<open>
  \<open>toLowerCase\<close> maps the string code point by code point, in order. An ASCII code unit
  is mapped on its own: \<open>A\<close> to \<open>Z\<close> go to \<open>a\<close> to \<open>z\<close>, every other one stays.
  What a code unit outside ASCII becomes is fixed by the Unicode tables (it may depend on
  its neighbours, and may be several code units or none); the tables are
  not part of the repository, so that mapping is a parameter \<open>uni\<close>, called with the code units
  before, the code unit itself and the code units after it.
\<close>

type_synonym unicode_lower = "jsstring \<Rightarrow> code_unit \<Rightarrow> jsstring \<Rightarrow> jsstring"

definition ascii_lower :: "code_unit \<Rightarrow> code_unit" where
  "ascii_lower c = (if 0x41 \<le> c \<and> c \<le> 0x5A then c + 0x20 else c)"

fun lower_from :: "unicode_lower \<Rightarrow> jsstring \<Rightarrow> jsstring \<Rightarrow> jsstring" where
  "lower_from uni pre [] = []"
| "lower_from uni pre (c # cs) =
     (if c < 0x80 then [ascii_lower c] else uni pre c cs) @ lower_from uni (pre @ [c]) cs"

definition toLowerCase :: "unicode_lower \<Rightarrow> jsstring \<Rightarrow> jsstring" where
  "toLowerCase uni s = lower_from uni [] s"

subsection \<open>The string operations the source uses\<close>

definition replace_disallowed :: "jsstring \<Rightarrow> jsstring" where
  \<comment> \<open>\<open>.replace(/[^a-z0-9-]/g, '-')\<close>\<close>
  "replace_disallowed s = map (\<lambda>c. if allowed c then c else hyphen) s"

function collapse_hyphens :: "jsstring \<Rightarrow> jsstring" where
  \<comment> \<open>\<open>.replace(/-+/g, '-')\<close>: every maximal run of hyphens becomes one hyphen\<close>
  "collapse_hyphens [] = []"
| "collapse_hyphens (c # cs) =
     (if c = hyphen then hyphen # collapse_hyphens (dropWhile (\<lambda>x. x = hyphen) cs)
      else c # collapse_hyphens cs)"
  by pat_completeness auto
termination
  by (relation "measure length") (auto simp: less_Suc_eq_le length_dropWhile_le)

definition strip_ends :: "jsstring \<Rightarrow> jsstring" where
  \<comment> \<open>\<open>.replace(/^-|-$/g, '')\<close>: one hyphen at the start and one at the end are removed\<close>
  "strip_ends s =
     (let t = (case s of [] \<Rightarrow> [] | c # cs \<Rightarrow> if c = hyphen then cs else s)
      in if t \<noteq> [] \<and> last t = hyphen then butlast t else t)"

definition strip_trailing :: "jsstring \<Rightarrow> jsstring" where
  \<comment> \<open>\<open>.replace(/-+$/g, '')\<close>: the run of hyphens at the end is removed\<close>
  "strip_trailing s = rev (dropWhile (\<lambda>c. c = hyphen) (rev s))"

definition slice0 :: "jsstring \<Rightarrow> int \<Rightarrow> jsstring" where
  \<comment> \<open>\<open>.slice(0, n)\<close> for an integer \<open>n\<close>: a negative \<open>n\<close> counts from the end\<close>
  "slice0 s n = (if n < 0 then take (nat (int (length s) + n)) s else take (nat n) s)"

definition padEnd :: "jsstring \<Rightarrow> nat \<Rightarrow> code_unit \<Rightarrow> jsstring" where
  \<comment> \<open>\<open>.padEnd(n, c)\<close> with a filler of one code unit\<close>
  "padEnd s n c = s @ replicate (n - length s) c"

fun join :: "jsstring \<Rightarrow> jsstring list \<Rightarrow> jsstring" where
  \<comment> \<open>\<open>parts.join(sep)\<close>\<close>
  "join sep [] = []"
| "join sep [p] = p"
| "join sep (p # q # ps) = p @ sep @ join sep (q # ps)"

definition non_empty :: "jsstring \<Rightarrow> bool" where
  \<comment> \<open>\<open>(part) => part.length > 0\<close>\<close>
  "non_empty part = (0 < length part)"

definition or_else :: "jsstring \<Rightarrow> jsstring \<Rightarrow> jsstring" where
  \<comment> \<open>\<open>a || b\<close> on strings: the empty string is falsy\<close>
  "or_else a b = (if a \<noteq> [] then a else b)"

section \<open>The name builder of the stack\<close>

definition sanitize :: "unicode_lower \<Rightarrow> jsstring \<Rightarrow> jsstring" where
  "sanitize uni v = strip_ends (collapse_hyphens (replace_disallowed (toLowerCase uni v)))"

text \<open>
  The stack's \<open>environmentName\<close> property is optional and defaults to \<open>'dev'\<close>.
\<close>

definition environmentNameInput :: "jsstring option \<Rightarrow> jsstring" where
  "environmentNameInput prop = (case prop of None \<Rightarrow> js ''dev'' | Some v \<Rightarrow> v)"

definition environmentName :: "unicode_lower \<Rightarrow> jsstring option \<Rightarrow> jsstring" where
  "environmentName uni prop = or_else (sanitize uni (environmentNameInput prop)) (js ''env'')"

definition resourceNamePrefix :: "unicode_lower \<Rightarrow> jsstring option \<Rightarrow> jsstring" where
  "resourceNamePrefix uni prop =
     or_else (sanitize uni (js ''dify-'' @ environmentName uni prop)) (js ''dify'')"

definition buildName :: "unicode_lower \<Rightarrow> jsstring option \<Rightarrow> jsstring \<Rightarrow> int \<Rightarrow> jsstring" where
  "buildName uni prop suffix maxLength =
     (let sanitizedSuffix = sanitize uni suffix;
          combined = sanitize uni
            (join (js ''-'') (filter non_empty [resourceNamePrefix uni prop, sanitizedSuffix]));
          truncated = strip_trailing (slice0 combined maxLength)
      in slice0 (or_else truncated (or_else combined (resourceNamePrefix uni prop))) maxLength)"

text \<open>
  The account and the region of the stack are strings, or tokens that are resolved only at
  deployment (\<open>cdk.Token.isUnresolved\<close>): \<open>None\<close> stands for an unresolved token.
\<close>

definition segment :: "unicode_lower \<Rightarrow> jsstring option \<Rightarrow> jsstring option" where
  "segment uni tok = (case tok of None \<Rightarrow> None | Some v \<Rightarrow> Some (sanitize uni v))"

definition segment_present :: "jsstring option \<Rightarrow> bool" where
  \<comment> \<open>\<open>(part) => (part?.length ?? 0) > 0\<close>\<close>
  "segment_present part = (case part of None \<Rightarrow> False | Some v \<Rightarrow> 0 < length v)"

definition bucketPrefix ::
  "unicode_lower \<Rightarrow> jsstring option \<Rightarrow> jsstring option \<Rightarrow> jsstring option \<Rightarrow> jsstring" where
  "bucketPrefix uni prop account region =
     sanitize uni (join (js ''-'')
       (map the (filter segment_present
          [Some (resourceNamePrefix uni prop), segment uni account, segment uni region])))"

definition bucket_candidate ::
  "unicode_lower \<Rightarrow> jsstring option \<Rightarrow> jsstring option \<Rightarrow> jsstring option \<Rightarrow> jsstring \<Rightarrow> jsstring" where
  \<comment> \<open>the value of \<open>candidate\<close> before the length test of \<open>buildBucketName\<close>\<close>
  "bucket_candidate uni prop account region suffix =
     (let base = or_else (bucketPrefix uni prop account region) (resourceNamePrefix uni prop)
      in strip_trailing
           (slice0 (sanitize uni (join (js ''-'') (filter non_empty [base, suffix]))) 63))"

definition buildBucketName ::
  "unicode_lower \<Rightarrow> jsstring option \<Rightarrow> jsstring option \<Rightarrow> jsstring option \<Rightarrow> jsstring \<Rightarrow> jsstring" where
  "buildBucketName uni prop account region suffix =
     (let candidate = bucket_candidate uni prop account region suffix
      in if length candidate < 3
         then slice0 (padEnd (resourceNamePrefix uni prop) 3 0x30) 63
         else candidate)"

section \<open>Identifiers derived by the constructs\<close>

text \<open>
  The stack hands \<open>resourceNamePrefix\<close> to its constructs. \<open>WebService\<close> derives the
  task family and the service name from it, \<open>Redis\<close> the subnet group name and the
  replication group id; the cluster name comes from \<open>buildName\<close>.
\<close>

definition clusterName :: "unicode_lower \<Rightarrow> jsstring option \<Rightarrow> jsstring" where
  "clusterName uni prop = buildName uni prop (js ''cluster'') 255"

definition taskFamily :: "jsstring \<Rightarrow> jsstring" where
  "taskFamily prefix = slice0 (prefix @ js ''-web'') 255"

definition serviceName :: "jsstring \<Rightarrow> jsstring" where
  "serviceName prefix = slice0 (prefix @ js ''-web'') 255"

definition subnetGroupName :: "jsstring \<Rightarrow> jsstring" where
  "subnetGroupName prefix = strip_trailing (slice0 (prefix @ js ''-redis-subnets'') 255)"

definition replicationGroupId :: "jsstring \<Rightarrow> jsstring" where
  "replicationGroupId prefix = strip_trailing (slice0 (prefix @ js ''-redis'') 40)"

section \<open>The configuration checks of the stack\<close>

text \<open>
  The value of an additional environment variable is a string or an object; the check of
  the secret names looks at the objects that have a \<open>secretName\<close> property.
\<close>

datatype env_value =
    StringValue jsstring
  | SecretValue (secretName: jsstring)
  | OtherValue

record env_var =
  key :: jsstring
  var_value :: env_value

text \<open>The properties the checks read. Every one of them is optional.\<close>

record props =
  vpcId :: "jsstring option"
  vpcIsolated :: "bool option"
  useNatInstance :: "bool option"
  useCloudFront :: "bool option"
  internalAlb :: "bool option"
  domainName :: "jsstring option"
  subDomain :: "jsstring option"
  setupEmail :: "bool option"
  additionalEnvironmentVariables :: "env_var list option"

datatype error = Error (message: jsstring)

datatype annotation = Warning (warning_id: jsstring) (warning_text: jsstring)

datatype alb_construct = AlbWithCloudFront | Alb

definition is_set :: "'a option \<Rightarrow> bool" where
  \<comment> \<open>\<open>x != null\<close>\<close>
  "is_set x = (case x of None \<Rightarrow> False | Some v \<Rightarrow> True)"

definition truthy_string :: "jsstring option \<Rightarrow> bool" where
  \<comment> \<open>an optional string as a condition: \<open>undefined\<close> and the empty string are falsy\<close>
  "truthy_string x = (case x of None \<Rightarrow> False | Some v \<Rightarrow> v \<noteq> [])"

definition truthy_bool :: "bool option \<Rightarrow> bool" where
  \<comment> \<open>an optional boolean as a condition: \<open>undefined\<close> is falsy\<close>
  "truthy_bool x = (case x of None \<Rightarrow> False | Some b \<Rightarrow> b)"

definition with_default :: "'a option \<Rightarrow> 'a \<Rightarrow> 'a" where
  \<comment> \<open>a destructuring default: \<open>const { x = d } = props\<close>\<close>
  "with_default x d = (case x of None \<Rightarrow> d | Some v \<Rightarrow> v)"

definition interpolate :: "jsstring option \<Rightarrow> jsstring" where
  \<comment> \<open>an optional string inside a template literal\<close>
  "interpolate x = (case x of None \<Rightarrow> js ''undefined'' | Some v \<Rightarrow> v)"

definition is_secret_reference :: "env_value \<Rightarrow> bool" where
  \<comment> \<open>\<open>typeof v != 'string' && 'secretName' in v\<close>\<close>
  "is_secret_reference v = (case v of SecretValue n \<Rightarrow> True | _ \<Rightarrow> False)"

definition hyphen_and_six :: "jsstring \<Rightarrow> bool" where
  \<comment> \<open>\<open>/-......$/.test(s)\<close>: a hyphen, then six code units that are no line terminators,
      then the end of the string\<close>
  "hyphen_and_six s =
     (case drop (length s - 7) s of
        [h, c1, c2, c3, c4, c5, c6] \<Rightarrow>
          h = hyphen \<and> list_all (\<lambda>c. (line_terminator c) = False) [c1, c2, c3, c4, c5, c6]
      | _ \<Rightarrow> False)"

definition filtered :: "props \<Rightarrow> jsstring list" where
  "filtered p =
     map secretName
       (filter (\<lambda>v. hyphen_and_six (secretName v))
         (filter is_secret_reference
           (map var_value (with_default (additionalEnvironmentVariables p) []))))"

definition vpc_message :: "jsstring \<Rightarrow> jsstring" where
  "vpc_message v =
     js ''When you import an existing VPC ('' @ v @
     js ''), you cannot set useNatInstance or vpcIsolated properties!''"

definition internalAlb_message :: jsstring where
  "internalAlb_message = js ''You cannot set internalAlb property when useCloudFront is true!''"

definition subDomain_message :: jsstring where
  "subDomain_message = js ''You cannot set subDomain property without domainName!''"

definition setupEmail_message :: jsstring where
  "setupEmail_message = js ''You cannot enable setupEmailServer without domainName!''"

definition secretName_message :: "jsstring list \<Rightarrow> jsstring" where
  "secretName_message names =
     js ''secretName cannot ends with a hyphen and 6 characters! '' @ join (js '', '') names"

definition albWithoutEncryption :: annotation where
  "albWithoutEncryption =
     Warning (js ''Dify:albWithoutEncryption'')
       (js (''You are exposing ALB to the Internet without TLS encryption. '' @
            ''It is recommended to set useCloudFront: true or domainName property.''))"

text \<open>The conditions of the five checks and of the warning, as the source writes them.\<close>

definition vpc_conflict :: "props \<Rightarrow> bool" where
  \<comment> \<open>\<open>props.vpcId && (props.vpcIsolated != null || props.useNatInstance != null)\<close>\<close>
  "vpc_conflict p =
     (truthy_string (vpcId p) \<and> (is_set (vpcIsolated p) \<or> is_set (useNatInstance p)))"

definition internalAlb_conflict :: "props \<Rightarrow> bool" where
  \<comment> \<open>\<open>useCloudFront && props.internalAlb != null\<close>, with \<open>useCloudFront\<close> defaulted to true\<close>
  "internalAlb_conflict p = (with_default (useCloudFront p) True \<and> is_set (internalAlb p))"

definition subDomain_conflict :: "props \<Rightarrow> bool" where
  \<comment> \<open>\<open>props.domainName == null && props.subDomain != null\<close>\<close>
  "subDomain_conflict p = (is_set (domainName p) = False \<and> is_set (subDomain p))"

definition setupEmail_conflict :: "props \<Rightarrow> bool" where
  \<comment> \<open>\<open>props.setupEmail && props.domainName == null\<close>\<close>
  "setupEmail_conflict p = (truthy_bool (setupEmail p) \<and> is_set (domainName p) = False)"

definition secretName_conflict :: "props \<Rightarrow> bool" where
  \<comment> \<open>\<open>filtered.length > 0\<close>\<close>
  "secretName_conflict p = (0 < length (filtered p))"

definition unencrypted_alb :: "props \<Rightarrow> bool" where
  \<comment> \<open>\<open>!props.useCloudFront && props.domainName == null && !internalAlb\<close>, with
      \<open>internalAlb\<close> defaulted to false and \<open>props.useCloudFront\<close> as supplied\<close>
  "unencrypted_alb p =
     (truthy_bool (useCloudFront p) = False \<and> is_set (domainName p) = False
      \<and> with_default (internalAlb p) False = False)"

text \<open>
  The checks of the constructor, in the order of the source: each \<open>throw\<close> ends the
  constructor with its error; when none is raised, the result is the list of the warnings
  the constructor has added.
\<close>

definition validate :: "props \<Rightarrow> error + annotation list" where
  "validate p =
     (if vpc_conflict p then Inl (Error (vpc_message (interpolate (vpcId p))))
      else if internalAlb_conflict p then Inl (Error internalAlb_message)
      else if subDomain_conflict p then Inl (Error subDomain_message)
      else if setupEmail_conflict p then Inl (Error setupEmail_message)
      else if secretName_conflict p then Inl (Error (secretName_message (filtered p)))
      else if unencrypted_alb p then Inr [albWithoutEncryption]
      else Inr [])"

definition alb :: "props \<Rightarrow> alb_construct" where
  \<comment> \<open>the load balancer construct the stack creates\<close>
  "alb p = (if with_default (useCloudFront p) True then AlbWithCloudFront else Alb)"

text \<open>The configuration that sets no property.\<close>

definition no_props :: props where
  "no_props =
     \<lparr>vpcId = None, vpcIsolated = None, useNatInstance = None, useCloudFront = None,
      internalAlb = None, domainName = None, subDomain = None, setupEmail = None,
      additionalEnvironmentVariables = None\<rparr>"

text \<open>A configuration whose additional variables hold three secret references and a plain string.\<close>

definition two_secrets :: props where
  "two_secrets = no_props\<lparr>additionalEnvironmentVariables := Some
     [\<lparr>key = js ''DB_PASSWORD'', var_value = SecretValue (js ''mysecret-ab12cd'')\<rparr>,
      \<lparr>key = js ''LOG_LEVEL'', var_value = StringValue (js ''level-ab12cd'')\<rparr>,
      \<lparr>key = js ''API_KEY'', var_value = SecretValue (js ''api-key'')\<rparr>,
      \<lparr>key = js ''TOKEN'', var_value = SecretValue (js ''token-123456'')\<rparr>]\<rparr>"

text \<open>
  The specification's reading of the five rules, to compare \<open>validate\<close> with: every rule is
  looked at on its own, and \<open>violations\<close> lists the error of every rule the configuration
  breaks, in the order of the rules.
\<close>

definition violations :: "props \<Rightarrow> error list" where
  "violations p =
     (if vpc_conflict p then [Error (vpc_message (interpolate (vpcId p)))] else [])
     @ (if internalAlb_conflict p then [Error internalAlb_message] else [])
     @ (if subDomain_conflict p then [Error subDomain_message] else [])
     @ (if setupEmail_conflict p then [Error setupEmail_message] else [])
     @ (if secretName_conflict p then [Error (secretName_message (filtered p))] else [])"

definition advisories :: "props \<Rightarrow> annotation list" where
  "advisories p = (if unencrypted_alb p then [albWithoutEncryption] else [])"

section \<open>The grammar of a sanitized token\<close>

text \<open>
  The regular expression \<open>^[a-z0-9]+(-[a-z0-9]+)*$\<close> as an automaton with two states:
  \<open>in_run\<close> holds when the code unit before is one of \<open>[a-z0-9]\<close>. A hyphen is accepted
  only inside a run, and the string is accepted when it ends inside a run.
\<close>

fun token_from :: "bool \<Rightarrow> jsstring \<Rightarrow> bool" where
  "token_from in_run [] = in_run"
| "token_from in_run (c # cs) =
     (if lower_alnum c then token_from True cs
      else (c = hyphen \<and> in_run \<and> token_from False cs))"

definition matches_token :: "jsstring \<Rightarrow> bool" where
  "matches_token s = token_from False s"

text \<open>No two hyphens follow each other.\<close>

fun no_double :: "jsstring \<Rightarrow> bool" where
  "no_double [] = True"
| "no_double [c] = True"
| "no_double (c # d # cs) = ((c = hyphen \<and> d = hyphen) = False \<and> no_double (d # cs))"

section \<open>Properties of the string operations\<close>

lemma lower_alnum_not_hyphen: "lower_alnum c \<Longrightarrow> c \<noteq> hyphen"
  by (auto simp: lower_alnum_def hyphen_def)

lemma lower_alnum_allowed: "lower_alnum c \<Longrightarrow> allowed c"
  by (simp add: allowed_def)

lemma allowed_ascii: "allowed c \<Longrightarrow> c < 0x80"
  by (auto simp: allowed_def lower_alnum_def hyphen_def word_le_nat_alt word_less_nat_alt)

lemma allowed_ascii_lower: "allowed c \<Longrightarrow> ascii_lower c = c"
  by (auto simp: allowed_def lower_alnum_def hyphen_def ascii_lower_def word_le_nat_alt)

lemma lower_from_ascii:
  "list_all allowed a \<Longrightarrow> lower_from uni pre (a @ r) = a @ lower_from uni (pre @ a) r"
  by (induction a arbitrary: pre) (simp_all add: allowed_ascii allowed_ascii_lower)

lemma toLowerCase_allowed: "list_all allowed a \<Longrightarrow> toLowerCase uni a = a"
  using lower_from_ascii [of a uni "[]" "[]"] by (simp add: toLowerCase_def)

lemma replace_disallowed_allowed: "list_all allowed (replace_disallowed s)"
  by (induction s) (simp_all add: replace_disallowed_def allowed_def)

lemma replace_disallowed_id: "list_all allowed a \<Longrightarrow> replace_disallowed a = a"
  by (induction a) (simp_all add: replace_disallowed_def)

lemma replace_disallowed_append:
  "replace_disallowed (a @ b) = replace_disallowed a @ replace_disallowed b"
  by (simp add: replace_disallowed_def)

lemma collapse_hyphens_Nil_iff: "collapse_hyphens s = [] \<longleftrightarrow> s = []"
  by (cases s) simp_all

lemma hd_collapse_hyphens: "hd (collapse_hyphens s) = hd s"
  by (cases s) simp_all

lemma set_collapse_hyphens: "set (collapse_hyphens s) \<subseteq> set s"
proof (induction s rule: collapse_hyphens.induct)
  case 1
  show ?case by simp
next
  case (2 c cs)
  show ?case
  proof (cases "c = hyphen")
    case True
    have "set (dropWhile (\<lambda>x. x = hyphen) cs) \<subseteq> set cs"
      by (auto dest: set_dropWhileD)
    with 2(1) [OF True] True show ?thesis by auto
  next
    case False
    with 2(2) [OF False] show ?thesis by auto
  qed
qed

lemma collapse_hyphens_allowed:
  "list_all allowed s \<Longrightarrow> list_all allowed (collapse_hyphens s)"
  using set_collapse_hyphens [of s] by (auto simp: list_all_iff)

lemma no_double_Cons:
  "no_double (c # s) \<longleftrightarrow> (s = [] \<or> (c = hyphen \<and> hd s = hyphen) = False) \<and> no_double s"
  by (cases s) auto

lemma no_double_collapse: "no_double (collapse_hyphens s)"
proof (induction s rule: collapse_hyphens.induct)
  case 1
  show ?case by simp
next
  case (2 c cs)
  show ?case
  proof (cases "c = hyphen")
    case True
    let ?d = "dropWhile (\<lambda>x. x = hyphen) cs"
    have "?d = [] \<or> hd ?d \<noteq> hyphen"
      using hd_dropWhile [of "\<lambda>x. x = hyphen" cs] by blast
    with 2(1) [OF True] True show ?thesis
      by (auto simp: no_double_Cons collapse_hyphens_Nil_iff hd_collapse_hyphens)
  next
    case False
    with 2(2) [OF False] show ?thesis
      by (auto simp: no_double_Cons)
  qed
qed

lemma collapse_hyphens_id: "no_double s \<Longrightarrow> collapse_hyphens s = s"
proof (induction s rule: no_double.induct)
  case 1
  show ?case by simp
next
  case (2 c)
  show ?case by simp
next
  case (3 c d cs)
  then show ?case by (cases "c = hyphen") auto
qed

lemma collapse_hyphens_prefix:
  "list_all lower_alnum a \<Longrightarrow> collapse_hyphens (a @ r) = a @ collapse_hyphens r"
  by (induction a) (auto dest: lower_alnum_not_hyphen)

lemma no_double_append_left: "no_double (xs @ ys) \<Longrightarrow> no_double xs"
  by (induction xs rule: no_double.induct) (auto simp: no_double_Cons)

lemma no_double_snoc:
  "no_double (xs @ [c]) \<Longrightarrow> xs = [] \<or> (last xs = hyphen \<and> c = hyphen) = False"
  by (induction xs rule: no_double.induct) (auto simp: no_double_Cons)

lemma no_double_butlast: "no_double s \<Longrightarrow> no_double (butlast s)"
proof (cases "s = []")
  case True
  then show ?thesis by simp
next
  case False
  assume "no_double s"
  with False have "no_double (butlast s @ [last s])" by simp
  then show ?thesis by (rule no_double_append_left)
qed

lemma no_double_last_butlast:
  assumes "no_double s" "s \<noteq> []" "last s = hyphen" "butlast s \<noteq> []"
  shows "last (butlast s) \<noteq> hyphen"
proof -
  from assms(1,2) have "no_double (butlast s @ [last s])" by simp
  from no_double_snoc [OF this] assms(3,4) show ?thesis by auto
qed

lemma strip_ends_Cons_alnum:
  "lower_alnum c \<Longrightarrow> \<exists>r. strip_ends (c # s) = c # r \<and> set r \<subseteq> set s"
proof -
  assume a: "lower_alnum c"
  then have c: "c \<noteq> hyphen" by (rule lower_alnum_not_hyphen)
  show ?thesis
  proof (cases "s = []")
    case True
    with c show ?thesis by (simp add: strip_ends_def)
  next
    case False
    then have "set (butlast s) \<subseteq> set s" by (auto dest: in_set_butlastD)
    with c False show ?thesis by (auto simp: strip_ends_def Let_def)
  qed
qed

lemma set_strip_ends: "set (strip_ends s) \<subseteq> set s"
  by (cases s) (auto simp: strip_ends_def Let_def dest: in_set_butlastD)

lemma strip_ends_id:
  "s \<noteq> [] \<Longrightarrow> hd s \<noteq> hyphen \<Longrightarrow> last s \<noteq> hyphen \<Longrightarrow> strip_ends s = s"
  by (cases s) (auto simp: strip_ends_def Let_def)

lemma no_double_strip_ends: "no_double s \<Longrightarrow> no_double (strip_ends s)"
  by (cases s) (auto simp: strip_ends_def Let_def no_double_Cons intro: no_double_butlast)

lemma strip_ends_hd:
  assumes "no_double s" "strip_ends s \<noteq> []"
  shows "hd (strip_ends s) \<noteq> hyphen"
proof (cases s)
  case Nil
  with assms show ?thesis by (simp add: strip_ends_def)
next
  case (Cons c cs)
  show ?thesis
  proof (cases "c = hyphen")
    case True
    with assms Cons have cs: "cs \<noteq> []" "hd cs \<noteq> hyphen"
      by (auto simp: strip_ends_def Let_def no_double_Cons)
    with assms Cons True show ?thesis
      by (cases cs) (auto simp: strip_ends_def Let_def split: if_splits)
  next
    case False
    with assms Cons show ?thesis
      by (cases cs) (auto simp: strip_ends_def Let_def split: if_splits)
  qed
qed

lemma strip_ends_last:
  assumes "no_double s" "strip_ends s \<noteq> []"
  shows "last (strip_ends s) \<noteq> hyphen"
proof -
  define t where "t = (case s of [] \<Rightarrow> [] | c # cs \<Rightarrow> if c = hyphen then cs else s)"
  have nd: "no_double t"
    using assms(1) by (cases s) (auto simp: t_def no_double_Cons)
  have eq: "strip_ends s = (if t \<noteq> [] \<and> last t = hyphen then butlast t else t)"
    by (simp add: strip_ends_def t_def Let_def)
  show ?thesis
  proof (cases "t \<noteq> [] \<and> last t = hyphen")
    case True
    with eq assms(2) have "butlast t \<noteq> []" by simp
    with no_double_last_butlast [OF nd] True eq show ?thesis by simp
  next
    case False
    with eq assms(2) show ?thesis by auto
  qed
qed

lemma token_from_clean:
  "list_all allowed s \<Longrightarrow> no_double s \<Longrightarrow> s \<noteq> [] \<Longrightarrow> last s \<noteq> hyphen
    \<Longrightarrow> b \<or> hd s \<noteq> hyphen \<Longrightarrow> token_from b s"
proof (induction s arbitrary: b)
  case Nil
  then show ?case by simp
next
  case (Cons c cs)
  show ?case
  proof (cases "cs = []")
    case True
    with Cons.prems show ?thesis by (auto simp: allowed_def)
  next
    case False
    from Cons.prems have nd: "no_double cs" and al: "list_all allowed cs"
      by (auto simp: no_double_Cons)
    from Cons.prems False have la: "last cs \<noteq> hyphen" by simp
    show ?thesis
    proof (cases "lower_alnum c")
      case True
      with Cons.IH [OF al nd False la, of True] show ?thesis by simp
    next
      case nal: False
      with Cons.prems have c: "c = hyphen" by (simp add: allowed_def)
      with Cons.prems False have "hd cs \<noteq> hyphen" "b" by (auto simp: no_double_Cons)
      with Cons.IH [OF al nd False la, of False] nal c show ?thesis by simp
    qed
  qed
qed

lemma token_from_allowed: "token_from b s \<Longrightarrow> list_all allowed s"
  by (induction s arbitrary: b) (auto simp: allowed_def split: if_splits)

lemma token_from_no_double: "token_from b s \<Longrightarrow> no_double s"
proof (induction s arbitrary: b rule: no_double.induct)
  case 1
  show ?case by simp
next
  case (2 c)
  show ?case by simp
next
  case (3 c d cs)
  from 3(2) have "token_from True (d # cs) \<or> token_from False (d # cs)"
    by (auto split: if_splits)
  with 3(1) have "no_double (d # cs)" by blast
  moreover from 3(2) have "(c = hyphen \<and> d = hyphen) = False"
    by (auto split: if_splits dest: lower_alnum_not_hyphen)
  ultimately show ?case by simp
qed

lemma token_from_last: "token_from b s \<Longrightarrow> s \<noteq> [] \<Longrightarrow> last s \<noteq> hyphen"
proof (induction s arbitrary: b)
  case Nil
  then show ?case by simp
next
  case (Cons c cs)
  then show ?case
    by (cases "cs = []") (auto split: if_splits dest: lower_alnum_not_hyphen)
qed

lemma matches_token_hd: "matches_token s \<Longrightarrow> s \<noteq> [] \<and> lower_alnum (hd s)"
  by (cases s) (auto simp: matches_token_def split: if_splits)

lemma strip_ends_prefix:
  assumes "a \<noteq> []" "list_all lower_alnum a"
  shows "\<exists>r. strip_ends (a @ z) = a @ r"
proof -
  from assms obtain c a' where a: "a = c # a'" and c: "c \<noteq> hyphen"
    by (cases a) (auto dest: lower_alnum_not_hyphen)
  from assms have "lower_alnum (last a)"
    using last_in_set [of a] by (simp add: list_all_iff)
  then have la: "last a \<noteq> hyphen" by (rule lower_alnum_not_hyphen)
  show ?thesis
  proof (cases "z = []")
    case True
    with a c la show ?thesis by (simp add: strip_ends_def Let_def)
  next
    case False
    with a c have "strip_ends (a @ z) = (if last z = hyphen then a @ butlast z else a @ z)"
      by (simp add: strip_ends_def Let_def butlast_append)
    then show ?thesis by auto
  qed
qed

lemma sanitize_allowed: "list_all allowed (sanitize uni s)"
proof -
  have "list_all allowed (collapse_hyphens (replace_disallowed (toLowerCase uni s)))"
    by (rule collapse_hyphens_allowed) (rule replace_disallowed_allowed)
  with set_strip_ends show ?thesis
    unfolding sanitize_def list_all_iff by blast
qed

lemma sanitize_no_double: "no_double (sanitize uni s)"
  unfolding sanitize_def by (rule no_double_strip_ends) (rule no_double_collapse)

lemma sanitize_last: "sanitize uni s \<noteq> [] \<Longrightarrow> last (sanitize uni s) \<noteq> hyphen"
  unfolding sanitize_def by (rule strip_ends_last) (rule no_double_collapse)

lemma sanitize_hd: "sanitize uni s \<noteq> [] \<Longrightarrow> hd (sanitize uni s) \<noteq> hyphen"
  unfolding sanitize_def by (rule strip_ends_hd) (rule no_double_collapse)

lemma sanitize_matches: "sanitize uni s \<noteq> [] \<Longrightarrow> matches_token (sanitize uni s)"
  unfolding matches_token_def
  by (rule token_from_clean)
     (simp_all add: sanitize_allowed sanitize_no_double sanitize_last sanitize_hd)

lemma sanitize_fixed:
  assumes "matches_token s"
  shows "sanitize uni s = s"
proof -
  from assms have tf: "token_from False s" by (simp add: matches_token_def)
  from matches_token_hd [OF assms] have ne: "s \<noteq> []" and hd: "hd s \<noteq> hyphen"
    by (auto dest: lower_alnum_not_hyphen)
  from tf have al: "list_all allowed s" by (rule token_from_allowed)
  from tf have nd: "no_double s" by (rule token_from_no_double)
  from tf ne have la: "last s \<noteq> hyphen" by (rule token_from_last)
  show ?thesis
    by (simp add: sanitize_def toLowerCase_allowed [OF al] replace_disallowed_id [OF al]
        collapse_hyphens_id [OF nd] strip_ends_id [OF ne hd la])
qed

lemma sanitize_prefix:
  assumes "a \<noteq> []" "list_all lower_alnum a"
  shows "\<exists>r. sanitize uni (a @ rest) = a @ r"
proof -
  from assms(2) have al: "list_all allowed a"
    by (auto simp: list_all_iff lower_alnum_allowed)
  have "toLowerCase uni (a @ rest) = a @ lower_from uni a rest"
    using lower_from_ascii [OF al, of uni "[]" rest] by (simp add: toLowerCase_def)
  then have "collapse_hyphens (replace_disallowed (toLowerCase uni (a @ rest)))
      = a @ collapse_hyphens (replace_disallowed (lower_from uni a rest))"
    by (simp add: replace_disallowed_append replace_disallowed_id [OF al]
        collapse_hyphens_prefix [OF assms(2)])
  with strip_ends_prefix [OF assms] show ?thesis
    by (simp add: sanitize_def)
qed

lemma set_strip_trailing: "set (strip_trailing s) \<subseteq> set s"
  by (auto simp: strip_trailing_def dest: set_dropWhileD)

lemma length_strip_trailing: "length (strip_trailing s) \<le> length s"
  using length_dropWhile_le [of "\<lambda>c. c = hyphen" "rev s"] by (simp add: strip_trailing_def)

lemma strip_trailing_last: "strip_trailing s \<noteq> [] \<Longrightarrow> last (strip_trailing s) \<noteq> hyphen"
  using hd_dropWhile [of "\<lambda>c. c = hyphen" "rev s"]
  by (simp add: strip_trailing_def last_rev)

lemma strip_trailing_prefix:
  assumes "a \<noteq> []" "list_all lower_alnum a"
  shows "\<exists>r. strip_trailing (a @ z) = a @ r"
proof -
  from assms have "\<exists>x\<in>set (rev a). x \<noteq> hyphen"
    by (cases a) (auto dest: lower_alnum_not_hyphen)
  moreover from assms have "dropWhile (\<lambda>c. c = hyphen) (rev a) = rev a"
    using last_in_set [of a]
    by (cases "rev a") (auto simp: list_all_iff last_rev dest: lower_alnum_not_hyphen)
  ultimately show ?thesis
    by (auto simp: strip_trailing_def dropWhile_append)
qed

lemma strip_trailing_id: "s \<noteq> [] \<Longrightarrow> last s \<noteq> hyphen \<Longrightarrow> strip_trailing s = s"
  by (cases "rev s") (auto simp: strip_trailing_def last_rev)

lemma js_dify: "js ''dify'' \<noteq> [] \<and> list_all lower_alnum (js ''dify'')"
  by (simp add: js_def lower_alnum_def)

section \<open>Properties of the name builder\<close>

lemma join_Cons: "\<exists>y. join sep (p # ps) = p @ y"
  by (cases ps) simp_all

lemma resourceNamePrefix_dify: "\<exists>r. resourceNamePrefix uni prop = js ''dify'' @ r"
proof -
  have "js ''dify-'' @ environmentName uni prop = js ''dify'' @ (js ''-'' @ environmentName uni prop)"
    by (simp add: js_def)
  with sanitize_prefix [of "js ''dify''" uni "js ''-'' @ environmentName uni prop"] js_dify
  obtain r where "sanitize uni (js ''dify-'' @ environmentName uni prop) = js ''dify'' @ r"
    by auto
  then show ?thesis
    by (auto simp: resourceNamePrefix_def or_else_def)
qed

lemma sanitize_dify: "\<exists>r. sanitize uni ((js ''dify'' @ x) @ y) = js ''dify'' @ r"
  using sanitize_prefix [of "js ''dify''" uni "x @ y"] js_dify by simp

lemma combined_dify:
  "\<exists>r. sanitize uni (join (js ''-'') (filter non_empty [resourceNamePrefix uni prop, s]))
     = js ''dify'' @ r"
proof -
  obtain r where r: "resourceNamePrefix uni prop = js ''dify'' @ r"
    using resourceNamePrefix_dify by blast
  then have "non_empty (resourceNamePrefix uni prop)"
    by (simp add: non_empty_def js_def)
  then obtain y where
    "join (js ''-'') (filter non_empty [resourceNamePrefix uni prop, s])
       = resourceNamePrefix uni prop @ y"
    using join_Cons [of "js ''-''" "resourceNamePrefix uni prop"] by auto
  with r sanitize_dify [of uni r y] show ?thesis by simp
qed

lemma truncate_alnum_head:
  assumes "s \<noteq> []" "lower_alnum (hd s)" "1 \<le> n"
  shows "strip_trailing (slice0 s n) \<noteq> [] \<and> int (length (strip_trailing (slice0 s n))) \<le> n"
proof -
  from assms(1) obtain c cs where s: "s = c # cs" by (cases s) auto
  from assms(3) obtain k where k: "nat n = Suc k" by (cases "nat n") auto
  from assms(3) s k have sl: "slice0 s n = [c] @ take k cs" by (simp add: slice0_def)
  from assms(2) s have "[c] \<noteq> [] \<and> list_all lower_alnum [c]" by simp
  with strip_trailing_prefix [of "[c]" "take k cs"] sl
  have ne: "strip_trailing (slice0 s n) \<noteq> []" by auto
  have "length (strip_trailing (slice0 s n)) \<le> length (slice0 s n)"
    by (rule length_strip_trailing)
  also from assms(3) have "\<dots> \<le> nat n" by (simp add: slice0_def)
  finally show ?thesis using ne assms(3) by simp
qed

lemma base_dify:
  "\<exists>b. or_else (bucketPrefix uni prop account region) (resourceNamePrefix uni prop)
     = js ''dify'' @ b"
proof -
  obtain r where r: "resourceNamePrefix uni prop = js ''dify'' @ r"
    using resourceNamePrefix_dify by blast
  then have "segment_present (Some (resourceNamePrefix uni prop))"
    by (simp add: segment_present_def js_def)
  then obtain y where
    "join (js ''-'') (map the (filter segment_present
        [Some (resourceNamePrefix uni prop), segment uni account, segment uni region]))
       = resourceNamePrefix uni prop @ y"
    using join_Cons [of "js ''-''" "resourceNamePrefix uni prop"] by auto
  with r sanitize_dify [of uni r y]
  obtain b where "bucketPrefix uni prop account region = js ''dify'' @ b"
    by (auto simp: bucketPrefix_def)
  with r show ?thesis by (auto simp: or_else_def)
qed

lemma bucket_candidate_dify:
  "\<exists>w. bucket_candidate uni prop account region suffix = js ''dify'' @ w"
proof -
  define base where
    "base = or_else (bucketPrefix uni prop account region) (resourceNamePrefix uni prop)"
  obtain b where b: "base = js ''dify'' @ b"
    unfolding base_def using base_dify by blast
  then have "non_empty base" by (simp add: non_empty_def js_def)
  then obtain y where "join (js ''-'') (filter non_empty [base, suffix]) = base @ y"
    using join_Cons [of "js ''-''" base] by auto
  with b sanitize_dify [of uni b y]
  obtain z where z: "sanitize uni (join (js ''-'') (filter non_empty [base, suffix]))
      = js ''dify'' @ z"
    by auto
  have "slice0 (js ''dify'' @ z) 63 = js ''dify'' @ take 59 z"
    by (simp add: slice0_def js_def)
  with z strip_trailing_prefix [of "js ''dify''" "take 59 z"] js_dify
  show ?thesis
    by (simp add: bucket_candidate_def base_def Let_def)
qed

lemma bucket_candidate_allowed:
  "list_all allowed (bucket_candidate uni prop account region suffix)"
proof -
  define x where "x = sanitize uni (join (js ''-'') (filter non_empty
    [or_else (bucketPrefix uni prop account region) (resourceNamePrefix uni prop), suffix]))"
  have "set (strip_trailing (slice0 x 63)) \<subseteq> set (slice0 x 63)"
    by (rule set_strip_trailing)
  also have "\<dots> \<subseteq> set x"
    by (simp add: slice0_def set_take_subset)
  finally have "set (strip_trailing (slice0 x 63)) \<subseteq> set x" .
  moreover have "list_all allowed x"
    unfolding x_def by (rule sanitize_allowed)
  ultimately show ?thesis
    by (auto simp: bucket_candidate_def Let_def x_def list_all_iff)
qed

lemma bucket_candidate_length:
  "length (bucket_candidate uni prop account region suffix) \<le> 63"
proof -
  define x where "x = sanitize uni (join (js ''-'') (filter non_empty
    [or_else (bucketPrefix uni prop account region) (resourceNamePrefix uni prop), suffix]))"
  have "length (strip_trailing (slice0 x 63)) \<le> length (slice0 x 63)"
    by (rule length_strip_trailing)
  also have "\<dots> \<le> 63" by (simp add: slice0_def)
  finally show ?thesis by (simp add: bucket_candidate_def Let_def x_def)
qed

lemma token_from_replicate:
  "lower_alnum c \<Longrightarrow> b \<or> 0 < n \<Longrightarrow> token_from b (replicate n c)"
  by (induction n arbitrary: b) auto

lemma stripped_slice_dify:
  assumes "4 \<le> n"
  shows "strip_trailing (slice0 ((js ''dify'' @ r) @ sfx) n) \<noteq> []
    \<and> last (strip_trailing (slice0 ((js ''dify'' @ r) @ sfx) n)) \<noteq> hyphen
    \<and> int (length (strip_trailing (slice0 ((js ''dify'' @ r) @ sfx) n))) \<le> n"
proof -
  let ?s = "slice0 ((js ''dify'' @ r) @ sfx) n"
  have "length (js ''dify'') = 4" by (simp add: js_def)
  with assms have "?s = js ''dify'' @ take (nat n - 4) (r @ sfx)"
    by (simp add: slice0_def)
  with strip_trailing_prefix [of "js ''dify''" "take (nat n - 4) (r @ sfx)"] js_dify
  have ne: "strip_trailing ?s \<noteq> []" by auto
  then have la: "last (strip_trailing ?s) \<noteq> hyphen" by (rule strip_trailing_last)
  have "length (strip_trailing ?s) \<le> length ?s" by (rule length_strip_trailing)
  also from assms have "\<dots> \<le> nat n" by (simp add: slice0_def)
  finally show ?thesis using ne la assms by simp
qed

lemma redis_names_stripped:
  "subnetGroupName (resourceNamePrefix uni prop) \<noteq> []
   \<and> last (subnetGroupName (resourceNamePrefix uni prop)) \<noteq> hyphen
   \<and> length (subnetGroupName (resourceNamePrefix uni prop)) \<le> 255
   \<and> replicationGroupId (resourceNamePrefix uni prop) \<noteq> []
   \<and> last (replicationGroupId (resourceNamePrefix uni prop)) \<noteq> hyphen
   \<and> length (replicationGroupId (resourceNamePrefix uni prop)) \<le> 40"
proof -
  obtain r where r: "resourceNamePrefix uni prop = js ''dify'' @ r"
    using resourceNamePrefix_dify by blast
  show ?thesis
    using stripped_slice_dify [of 255 r "js ''-redis-subnets''"]
      stripped_slice_dify [of 40 r "js ''-redis''"]
    by (simp add: subnetGroupName_def replicationGroupId_def r)
qed

section \<open>Properties of the configuration checks\<close>

lemma vpc_message_inject: "vpc_message a = vpc_message b \<longleftrightarrow> a = b"
  by (simp add: vpc_message_def)

lemma messages_distinct:
  "vpc_message v \<noteq> internalAlb_message"
  "vpc_message v \<noteq> subDomain_message"
  "vpc_message v \<noteq> setupEmail_message"
  "vpc_message v \<noteq> secretName_message ns"
  "internalAlb_message \<noteq> subDomain_message"
  "internalAlb_message \<noteq> setupEmail_message"
  "internalAlb_message \<noteq> secretName_message ns"
  "subDomain_message \<noteq> setupEmail_message"
  "subDomain_message \<noteq> secretName_message ns"
  "setupEmail_message \<noteq> secretName_message ns"
  by (simp_all add: vpc_message_def internalAlb_message_def subDomain_message_def
      setupEmail_message_def secretName_message_def js_def)

lemmas messages_distinct_sym = messages_distinct [THEN not_sym]

lemma vpc_conflict_vpcId: "vpc_conflict p \<Longrightarrow> \<exists>v. vpcId p = Some v \<and> v \<noteq> []"
  by (auto simp: vpc_conflict_def truthy_string_def split: option.splits)

lemma hyphen_and_six_iff:
  "hyphen_and_six s \<longleftrightarrow>
     (\<exists>pre six. s = pre @ hyphen # six \<and> length six = 6
        \<and> list_all (\<lambda>c. line_terminator c = False) six)"
proof
  assume h: "hyphen_and_six s"
  then obtain c1 c2 c3 c4 c5 c6 where
    d: "drop (length s - 7) s = [hyphen, c1, c2, c3, c4, c5, c6]"
    and l: "list_all (\<lambda>c. line_terminator c = False) [c1, c2, c3, c4, c5, c6]"
    by (auto simp: hyphen_and_six_def split: list.splits)
  have "s = take (length s - 7) s @ drop (length s - 7) s" by simp
  with d have "s = take (length s - 7) s @ hyphen # [c1, c2, c3, c4, c5, c6]" by simp
  with l show "\<exists>pre six. s = pre @ hyphen # six \<and> length six = 6
        \<and> list_all (\<lambda>c. line_terminator c = False) six"
    by (intro exI [of _ "take (length s - 7) s"] exI [of _ "[c1, c2, c3, c4, c5, c6]"]) simp
next
  assume "\<exists>pre six. s = pre @ hyphen # six \<and> length six = 6
        \<and> list_all (\<lambda>c. line_terminator c = False) six"
  then obtain pre six where s: "s = pre @ hyphen # six" and n: "length six = 6"
    and l: "list_all (\<lambda>c. line_terminator c = False) six"
    by blast
  from n obtain c1 c2 c3 c4 c5 c6 where six: "six = [c1, c2, c3, c4, c5, c6]"
    by (auto simp: eval_nat_numeral length_Suc_conv)
  with s l show "hyphen_and_six s"
    by (simp add: hyphen_and_six_def)
qed

lemma set_filtered:
  "set (filtered p) =
     {n. hyphen_and_six n
         \<and> SecretValue n \<in> var_value ` set (with_default (additionalEnvironmentVariables p) [])}"
proof -
  define vs where "vs = map var_value (with_default (additionalEnvironmentVariables p) [])"
  have sec: "is_secret_reference v \<longleftrightarrow> (\<exists>n. v = SecretValue n)" for v
    by (cases v) (simp_all add: is_secret_reference_def)
  have "set (map secretName (filter (\<lambda>v. hyphen_and_six (secretName v))
          (filter is_secret_reference vs)))
      = {n. hyphen_and_six n \<and> SecretValue n \<in> set vs}"
  proof (induction vs)
    case Nil
    show ?case by simp
  next
    case (Cons v vs)
    then show ?case by (cases v) (auto simp: is_secret_reference_def)
  qed
  then show ?thesis by (simp add: filtered_def vs_def)
qed

lemma secretName_conflict_raised:
  assumes "vpc_conflict p = False" "internalAlb_conflict p = False"
    "subDomain_conflict p = False" "setupEmail_conflict p = False"
  shows "(\<exists>ns. validate p = Inl (Error (secretName_message ns))) = (filtered p \<noteq> [])"
    and "filtered p \<noteq> [] \<longrightarrow> validate p = Inl (Error (secretName_message (filtered p)))"
  using assms
  by (auto simp: validate_def secretName_conflict_def messages_distinct messages_distinct_sym)

lemma set_filtered_pattern:
  "set (filtered p) =
     {n. SecretValue n \<in> var_value ` set (with_default (additionalEnvironmentVariables p) [])
         \<and> (\<exists>pre six. n = pre @ hyphen # six \<and> length six = 6
              \<and> list_all (\<lambda>c. line_terminator c = False) six)}"
  unfolding set_filtered hyphen_and_six_iff by blast

lemma filtered_two_secrets: "filtered two_secrets = [js ''mysecret-ab12cd'', js ''token-123456'']"
  by (simp add: filtered_def two_secrets_def no_props_def with_default_def
      is_secret_reference_def hyphen_and_six_def js_def hyphen_def line_terminator_def)

lemma conflicts_useCloudFront_update:
  "vpc_conflict (p\<lparr>useCloudFront := v\<rparr>) = vpc_conflict p"
  "subDomain_conflict (p\<lparr>useCloudFront := v\<rparr>) = subDomain_conflict p"
  "setupEmail_conflict (p\<lparr>useCloudFront := v\<rparr>) = setupEmail_conflict p"
  "secretName_conflict (p\<lparr>useCloudFront := v\<rparr>) = secretName_conflict p"
  by (simp_all add: vpc_conflict_def subDomain_conflict_def setupEmail_conflict_def
      secretName_conflict_def filtered_def)

section \<open>The automaton accepts the language of the regular expression\<close>

text \<open>
  A string is accepted exactly when it is a non-empty sequence of non-empty runs of
  \<open>[a-z0-9]\<close>, joined by single hyphens.
\<close>

lemma token_from_run:
  "list_all lower_alnum r \<Longrightarrow> r \<noteq> [] \<Longrightarrow> token_from b (r @ rest) = token_from True rest"
proof (induction r arbitrary: b)
  case Nil
  then show ?case by simp
next
  case (Cons c r)
  then show ?case by (cases "r = []") simp_all
qed

lemma hyphen_not_alnum: "lower_alnum hyphen = False"
  using lower_alnum_not_hyphen [of hyphen] by auto

lemma token_from_hyphen: "token_from True (hyphen # x) = token_from False x"
  by (simp add: hyphen_not_alnum)

lemma token_from_join:
  "runs \<noteq> [] \<Longrightarrow> list_all (\<lambda>r. r \<noteq> [] \<and> list_all lower_alnum r) runs
    \<Longrightarrow> token_from False (join [hyphen] runs)"
proof (induction "[hyphen]" runs rule: join.induct)
  case 1
  then show ?case by simp
next
  case (2 p)
  then show ?case using token_from_run [of p False "[]"] by simp
next
  case (3 p q ps)
  then show ?case
    using token_from_run [of p False "hyphen # join [hyphen] (q # ps)"]
    by (simp add: hyphen_not_alnum)
qed

lemma token_from_split:
  "token_from False s \<Longrightarrow>
     \<exists>runs. runs \<noteq> [] \<and> list_all (\<lambda>r. r \<noteq> [] \<and> list_all lower_alnum r) runs
       \<and> s = join [hyphen] runs"
proof (induction s rule: length_induct)
  case (1 s)
  define r where "r = takeWhile lower_alnum s"
  define rest where "rest = dropWhile lower_alnum s"
  have s: "s = r @ rest" by (simp add: r_def rest_def)
  have al: "list_all lower_alnum r"
    by (auto simp: r_def list_all_iff dest: set_takeWhileD)
  from 1(2) have ne: "r \<noteq> []"
    by (cases s) (auto simp: r_def split: if_splits)
  from 1(2) s have t: "token_from True rest"
    using token_from_run [OF al ne, of False rest] by simp
  show ?case
  proof (cases rest)
    case Nil
    with s al ne show ?thesis
      by (intro exI [of _ "[r]"]) simp
  next
    case (Cons c s')
    then have "lower_alnum c = False"
      using hd_dropWhile [of lower_alnum s] by (auto simp: rest_def)
    with t Cons have c: "c = hyphen" and t': "token_from False s'" by auto
    from s Cons have "length s' < length s" by simp
    with 1(1) t' obtain runs where runs: "runs \<noteq> []"
      "list_all (\<lambda>r. r \<noteq> [] \<and> list_all lower_alnum r) runs" "s' = join [hyphen] runs"
      by blast
    from runs(1) obtain q qs where q: "runs = q # qs" by (cases runs) auto
    with s Cons c runs(3) have "s = join [hyphen] (r # runs)" by simp
    with al ne runs(2) show ?thesis
      by (intro exI [of _ "r # runs"]) simp
  qed
qed

lemma matches_token_iff_runs:
  "matches_token s \<longleftrightarrow>
     (\<exists>runs. runs \<noteq> [] \<and> list_all (\<lambda>r. r \<noteq> [] \<and> list_all lower_alnum r) runs
        \<and> s = join [hyphen] runs)"
  unfolding matches_token_def using token_from_join token_from_split by blast

section \<open>The claims\<close>

text \<open>
  C1. For every environment name property (the first name part, from which the
  resource name prefix is built), every suffix (the second name part) and every integer
  \<open>maxLength\<close> of at least 1, the name \<open>buildName\<close> returns has at most \<open>maxLength\<close>
  code units, is not empty and does not end with a hyphen. This holds whatever the Unicode
  tables make of the code units outside ASCII.
\<close>

theorem buildName_bounded:
  assumes "1 \<le> maxLength"
  shows "int (length (buildName uni prop suffix maxLength)) \<le> maxLength
    \<and> buildName uni prop suffix maxLength \<noteq> []
    \<and> last (buildName uni prop suffix maxLength) \<noteq> hyphen"
proof -
  define combined where "combined = sanitize uni
    (join (js ''-'') (filter non_empty [resourceNamePrefix uni prop, sanitize uni suffix]))"
  define truncated where "truncated = strip_trailing (slice0 combined maxLength)"
  obtain r where "combined = js ''dify'' @ r"
    unfolding combined_def using combined_dify by blast
  then have ne: "combined \<noteq> []" by (simp add: js_def)
  then have "matches_token combined"
    unfolding combined_def by (rule sanitize_matches)
  then have "lower_alnum (hd combined)" by (simp add: matches_token_hd)
  from truncate_alnum_head [OF ne this assms]
  have t: "truncated \<noteq> []" "int (length truncated) \<le> maxLength"
    by (simp_all add: truncated_def)
  have "buildName uni prop suffix maxLength = slice0 truncated maxLength"
    using t(1) by (simp add: buildName_def Let_def combined_def truncated_def or_else_def)
  also from t(2) assms have "\<dots> = truncated" by (simp add: slice0_def)
  finally have eq: "buildName uni prop suffix maxLength = truncated" .
  from t(1) have "last truncated \<noteq> hyphen"
    unfolding truncated_def by (rule strip_trailing_last)
  with eq t show ?thesis by simp
qed

theorem buildName_bounded_witness:
  "(1::int) \<le> 5
   \<and> int (length (buildName (\<lambda>pre c post. [c]) (Some (js ''My-App!!'')) (js ''cluster'') 5)) \<le> 5
   \<and> buildName (\<lambda>pre c post. [c]) (Some (js ''My-App!!'')) (js ''cluster'') 5 \<noteq> []
   \<and> last (buildName (\<lambda>pre c post. [c]) (Some (js ''My-App!!'')) (js ''cluster'') 5) \<noteq> hyphen"
  using buildName_bounded [of 5 "\<lambda>pre c post. [c]" "Some (js ''My-App!!'')" "js ''cluster''"]
  by simp

text \<open>
  C2. Every identifier derived from the environment name is cut at the maximum length of
  its resource type, never ends with a hyphen and is never empty. The subnet group name and
  the replication group id of \<open>Redis\<close> strip the hyphens after cutting
  (\<open>redis_names_stripped\<close>), and so does \<open>buildName\<close> for the cluster name. The task family
  and the service name of \<open>WebService\<close> cut \<open>prefix-web\<close> at 255 code units and strip
  nothing: at the environment name of 249 letters \<open>a\<close> the resource name prefix has 254
  code units, and both names end with a hyphen.
\<close>

theorem taskFamily_dangling_hyphen:
  "last (taskFamily (resourceNamePrefix uni (Some (replicate 249 0x61)))) = hyphen
   \<and> last (serviceName (resourceNamePrefix uni (Some (replicate 249 0x61)))) = hyphen
   \<and> length (resourceNamePrefix uni (Some (replicate 249 0x61))) = 254"
proof -
  have a: "lower_alnum 0x61" by (simp add: lower_alnum_def)
  have "matches_token (replicate 249 0x61)"
    unfolding matches_token_def using a by (rule token_from_replicate) simp
  then have "sanitize uni (replicate 249 0x61) = replicate 249 0x61"
    by (rule sanitize_fixed)
  then have env: "environmentName uni (Some (replicate 249 0x61)) = replicate 249 0x61"
    by (simp add: environmentName_def environmentNameInput_def or_else_def)
  have "token_from False (replicate 249 0x61)"
    using a by (rule token_from_replicate) simp
  then have "matches_token (js ''dify-'' @ replicate 249 0x61)"
    by (simp add: matches_token_def js_def lower_alnum_def hyphen_def)
  then have "sanitize uni (js ''dify-'' @ replicate 249 0x61) = js ''dify-'' @ replicate 249 0x61"
    by (rule sanitize_fixed)
  with env have rnp: "resourceNamePrefix uni (Some (replicate 249 0x61))
      = js ''dify-'' @ replicate 249 0x61"
    by (simp add: resourceNamePrefix_def or_else_def)
  have "slice0 ((js ''dify-'' @ replicate 249 0x61) @ js ''-web'') 255
      = js ''dify-'' @ replicate 249 0x61 @ [hyphen]"
    by (simp add: slice0_def js_def hyphen_def)
  with rnp show ?thesis
    by (simp add: taskFamily_def serviceName_def js_def)
qed

text \<open>
  C3. For every environment name property, account, region and suffix, the name
  \<open>buildBucketName\<close> returns has between 3 and 63 code units, all of them lowercase
  letters, digits or hyphens. The composed, truncated name (\<open>candidate\<close>) always begins with
  \<open>dify\<close>, so it never has fewer than 3 code units: the padding branch is never taken and
  the result is the candidate itself.
\<close>

theorem buildBucketName_valid:
  "3 \<le> length (buildBucketName uni prop account region suffix)
   \<and> length (buildBucketName uni prop account region suffix) \<le> 63
   \<and> list_all allowed (buildBucketName uni prop account region suffix)
   \<and> 3 \<le> length (bucket_candidate uni prop account region suffix)
   \<and> buildBucketName uni prop account region suffix
       = bucket_candidate uni prop account region suffix"
proof -
  obtain w where "bucket_candidate uni prop account region suffix = js ''dify'' @ w"
    using bucket_candidate_dify by blast
  then have "4 \<le> length (bucket_candidate uni prop account region suffix)"
    by (simp add: js_def)
  then have len: "3 \<le> length (bucket_candidate uni prop account region suffix)"
    by simp
  then have "buildBucketName uni prop account region suffix
      = bucket_candidate uni prop account region suffix"
    by (simp add: buildBucketName_def Let_def)
  with len bucket_candidate_length bucket_candidate_allowed
  show ?thesis by simp
qed

text \<open>
  C4. For every string \<open>s\<close>, \<open>sanitize s\<close> is the empty string or matches
  \<open>^[a-z0-9]+(-[a-z0-9]+)*$\<close>, and \<open>sanitize\<close> of \<open>My-App!!\<close> is \<open>my-app\<close>. The function
  has no branch that raises: it is total, and returns a string for every input.
\<close>

theorem sanitize_token:
  "(sanitize uni s = [] \<or> matches_token (sanitize uni s))
   \<and> sanitize uni (js ''My-App!!'') = js ''my-app''"
proof -
  have "sanitize uni (js ''My-App!!'') = js ''my-app''"
    by (simp add: sanitize_def toLowerCase_def js_def ascii_lower_def replace_disallowed_def
        allowed_def lower_alnum_def hyphen_def strip_ends_def)
  with sanitize_matches [of uni s] show ?thesis by blast
qed

text \<open>
  C5, amended. The error of the first check, whose message holds the supplied VPC
  identifier between \<open>VPC (\<close> and \<open>)\<close>, is raised exactly when \<open>vpcId\<close> is a non-empty string
  and \<open>vpcIsolated\<close> or \<open>useNatInstance\<close> is set at all, to true or to false. It is not
  raised when \<open>vpcId\<close> is missing or empty, or when both properties are left unset.
\<close>

theorem vpc_import_conflict:
  "(\<exists>m. validate p = Inl (Error (vpc_message m)))
     = (truthy_string (vpcId p) \<and> (is_set (vpcIsolated p) \<or> is_set (useNatInstance p)))
   \<and> (\<forall>m. validate p = Inl (Error (vpc_message m)) \<longrightarrow> vpcId p = Some m)"
proof (cases "vpc_conflict p")
  case True
  then obtain v where v: "vpcId p = Some v" using vpc_conflict_vpcId by blast
  with True have "validate p = Inl (Error (vpc_message v))"
    by (simp add: validate_def interpolate_def)
  with True v show ?thesis
    by (auto simp: vpc_conflict_def vpc_message_inject)
next
  case False
  then have "validate p \<noteq> Inl (Error (vpc_message m))" for m
    by (simp add: validate_def messages_distinct messages_distinct_sym)
  with False show ?thesis by (auto simp: vpc_conflict_def)
qed

theorem vpc_import_conflict_witness:
  "validate (no_props\<lparr>vpcId := Some (js ''vpc-0a1''), useNatInstance := Some True\<rparr>)
     = Inl (Error (vpc_message (js ''vpc-0a1'')))"
proof -
  let ?p = "no_props\<lparr>vpcId := Some (js ''vpc-0a1''), useNatInstance := Some True\<rparr>"
  have "truthy_string (vpcId ?p) \<and> (is_set (vpcIsolated ?p) \<or> is_set (useNatInstance ?p))"
    by (simp add: no_props_def truthy_string_def is_set_def js_def)
  with vpc_import_conflict [of ?p]
  obtain m where m: "validate ?p = Inl (Error (vpc_message m))" "vpcId ?p = Some m"
    by blast
  from m(2) have "m = js ''vpc-0a1''" by (simp add: no_props_def)
  with m(1) show ?thesis by simp
qed

text \<open>
  The claim as stated fails where NAT instances are declined in so many words: with a VPC
  identifier and \<open>useNatInstance: false\<close> the error is raised.
\<close>

theorem vpc_import_conflict_counterexample:
  "validate (no_props\<lparr>vpcId := Some (js ''vpc-0a1''), useNatInstance := Some False\<rparr>)
     = Inl (Error (vpc_message (js ''vpc-0a1'')))"
  by (simp add: validate_def vpc_conflict_def no_props_def truthy_string_def is_set_def
      interpolate_def js_def)

text \<open>
  C6, amended. With the CDN enabled (\<open>useCloudFront\<close> true or left out), the error of the
  second check is raised exactly when \<open>internalAlb\<close> is set at all, to true or to false, and
  the first check (the imported VPC) has not raised before it. With \<open>internalAlb\<close> unset
  that error is not raised.
\<close>

theorem cloudfront_internalAlb_conflict:
  assumes "with_default (useCloudFront p) True"
  shows "(validate p = Inl (Error internalAlb_message))
     = (is_set (internalAlb p) \<and> vpc_conflict p = False)"
  using assms
  by (simp add: validate_def internalAlb_conflict_def messages_distinct messages_distinct_sym)

theorem cloudfront_internalAlb_conflict_witness:
  "validate (no_props\<lparr>useCloudFront := Some True, internalAlb := Some True\<rparr>)
     = Inl (Error internalAlb_message)"
  using cloudfront_internalAlb_conflict
    [of "no_props\<lparr>useCloudFront := Some True, internalAlb := Some True\<rparr>"]
  by (simp add: no_props_def with_default_def is_set_def vpc_conflict_def truthy_string_def)

text \<open>
  The claim as stated fails at \<open>useCloudFront: true\<close> with \<open>internalAlb: false\<close>: the
  internal load balancer is not selected, and the error is raised.
\<close>

theorem cloudfront_internalAlb_conflict_counterexample:
  "validate (no_props\<lparr>useCloudFront := Some True, internalAlb := Some False\<rparr>)
     = Inl (Error internalAlb_message)"
  by (simp add: validate_def vpc_conflict_def internalAlb_conflict_def no_props_def
      truthy_string_def is_set_def with_default_def)

text \<open>
  C7, amended. When none of the four checks before it raises, the error of the secret names
  is raised exactly when some additional variable is a secret reference whose name ends
  with a hyphen followed by exactly six code units none of which is a line terminator; the
  message then ends with the names of \<open>filtered\<close>, which are all such names of the
  configuration, joined by a comma and a space.
\<close>

theorem secretName_conflict_error:
  assumes "vpc_conflict p = False" "internalAlb_conflict p = False"
    "subDomain_conflict p = False" "setupEmail_conflict p = False"
  shows "((\<exists>ns. validate p = Inl (Error (secretName_message ns)))
       = (\<exists>n pre six.
            SecretValue n \<in> var_value ` set (with_default (additionalEnvironmentVariables p) [])
            \<and> n = pre @ hyphen # six \<and> length six = 6
            \<and> list_all (\<lambda>c. line_terminator c = False) six))
    \<and> (filtered p \<noteq> [] \<longrightarrow> validate p = Inl (Error (secretName_message (filtered p))))
    \<and> set (filtered p) =
       {n. SecretValue n \<in> var_value ` set (with_default (additionalEnvironmentVariables p) [])
           \<and> (\<exists>pre six. n = pre @ hyphen # six \<and> length six = 6
                \<and> list_all (\<lambda>c. line_terminator c = False) six)}"
proof -
  have "(filtered p \<noteq> []) = (set (filtered p) \<noteq> {})" by simp
  also have "\<dots> = (\<exists>n pre six.
            SecretValue n \<in> var_value ` set (with_default (additionalEnvironmentVariables p) [])
            \<and> n = pre @ hyphen # six \<and> length six = 6
            \<and> list_all (\<lambda>c. line_terminator c = False) six)"
    unfolding set_filtered_pattern by blast
  finally show ?thesis
    using secretName_conflict_raised [OF assms] set_filtered_pattern [of p] by simp
qed

theorem secretName_conflict_error_witness:
  "validate two_secrets
     = Inl (Error (secretName_message [js ''mysecret-ab12cd'', js ''token-123456'']))"
proof -
  have "vpc_conflict two_secrets = False" "internalAlb_conflict two_secrets = False"
    "subDomain_conflict two_secrets = False" "setupEmail_conflict two_secrets = False"
    by (simp_all add: two_secrets_def no_props_def vpc_conflict_def internalAlb_conflict_def
        subDomain_conflict_def setupEmail_conflict_def truthy_string_def truthy_bool_def
        is_set_def)
  from secretName_conflict_error [OF this] filtered_two_secrets show ?thesis by simp
qed

text \<open>
  The claim as stated fails in two ways. With an imported VPC and \<open>useNatInstance\<close> set, a
  secret named \<open>mysecret-ab12cd\<close> is not reported: the error raised is that of the first
  check. And a name that ends with a hyphen and six code units of which one is a line feed
  raises no error.
\<close>

theorem secretName_conflict_error_counterexample:
  "validate (no_props\<lparr>vpcId := Some (js ''vpc-0a1''), useNatInstance := Some True,
       additionalEnvironmentVariables := Some
         [\<lparr>key = js ''DB_PASSWORD'', var_value = SecretValue (js ''mysecret-ab12cd'')\<rparr>]\<rparr>)
     = Inl (Error (vpc_message (js ''vpc-0a1'')))
   \<and> filtered (no_props\<lparr>vpcId := Some (js ''vpc-0a1''), useNatInstance := Some True,
       additionalEnvironmentVariables := Some
         [\<lparr>key = js ''DB_PASSWORD'', var_value = SecretValue (js ''mysecret-ab12cd'')\<rparr>]\<rparr>)
     = [js ''mysecret-ab12cd'']
   \<and> validate (no_props\<lparr>additionalEnvironmentVariables := Some
         [\<lparr>key = js ''TOKEN'', var_value = SecretValue (js ''tok-ab'' @ [0x0A] @ js ''cde'')\<rparr>]\<rparr>)
     = Inr [albWithoutEncryption]"
  by (simp add: validate_def vpc_conflict_def internalAlb_conflict_def subDomain_conflict_def
      setupEmail_conflict_def secretName_conflict_def unencrypted_alb_def filtered_def
      no_props_def with_default_def truthy_string_def truthy_bool_def is_set_def
      interpolate_def is_secret_reference_def hyphen_and_six_def js_def hyphen_def
      line_terminator_def)

text \<open>
  C8, amended. For a configuration with \<open>useCloudFront: false\<close>, no \<open>domainName\<close> and
  \<open>internalAlb: false\<close>, the checks raise no error and add exactly one warning, the one
  about the load balancer without encryption, exactly when the configuration breaks none
  of the other conflict rules: the imported VPC, the sub-domain without a domain, the email
  set-up without a domain and the secret names. Whenever no error is raised, that warning
  is the only one.
\<close>

theorem unencrypted_alb_warning:
  assumes "useCloudFront p = Some False" "domainName p = None" "internalAlb p = Some False"
  shows "(validate p = Inr [albWithoutEncryption])
       = (vpc_conflict p = False \<and> subDomain_conflict p = False
          \<and> setupEmail_conflict p = False \<and> secretName_conflict p = False)
    \<and> (\<forall>ws. validate p = Inr ws \<longrightarrow> ws = [albWithoutEncryption])"
proof -
  have ia: "internalAlb_conflict p = False"
    using assms by (simp add: internalAlb_conflict_def with_default_def)
  have ua: "unencrypted_alb p"
    using assms by (simp add: unencrypted_alb_def with_default_def truthy_bool_def is_set_def)
  show ?thesis
    unfolding validate_def using ia ua by (auto split: if_splits)
qed

theorem unencrypted_alb_warning_witness:
  "validate (no_props\<lparr>useCloudFront := Some False, internalAlb := Some False\<rparr>)
     = Inr [albWithoutEncryption]"
proof -
  let ?p = "no_props\<lparr>useCloudFront := Some False, internalAlb := Some False\<rparr>"
  have "vpc_conflict ?p = False \<and> subDomain_conflict ?p = False
          \<and> setupEmail_conflict ?p = False \<and> secretName_conflict ?p = False"
    by (simp add: no_props_def vpc_conflict_def subDomain_conflict_def setupEmail_conflict_def
      secretName_conflict_def filtered_def with_default_def truthy_string_def truthy_bool_def
      is_set_def)
  moreover have "useCloudFront ?p = Some False" "domainName ?p = None"
    "internalAlb ?p = Some False"
    by (simp_all add: no_props_def)
  ultimately show ?thesis using unencrypted_alb_warning [of ?p] by blast
qed

text \<open>
  The claim as stated fails when another rule is broken: with \<open>useCloudFront: false\<close>, no
  \<open>domainName\<close>, \<open>internalAlb: false\<close> and \<open>subDomain: 'app'\<close> the error of the sub-domain
  is raised and no warning is returned.
\<close>

theorem unencrypted_alb_warning_counterexample:
  "validate (no_props\<lparr>useCloudFront := Some False, internalAlb := Some False,
       subDomain := Some (js ''app'')\<rparr>)
     = Inl (Error subDomain_message)"
  by (simp add: validate_def vpc_conflict_def internalAlb_conflict_def subDomain_conflict_def
      no_props_def with_default_def truthy_string_def is_set_def)

text \<open>
  C9, amended. The checks run in the order of the source and stop at the first rule that is
  broken: of all the violations of a configuration, \<open>validate\<close> raises the first one only,
  and returns the warnings when there is none.
\<close>

theorem first_violation_only:
  "validate p = (case violations p of [] \<Rightarrow> Inr (advisories p) | e # es \<Rightarrow> Inl e)"
  by (simp add: validate_def violations_def advisories_def)

text \<open>
  The claim as stated fails at its own example: with \<open>subDomain\<close> set, no \<open>domainName\<close>
  and a secret named \<open>mysecret-ab12cd\<close>, two rules are broken and only the error of the
  sub-domain is raised.
\<close>

theorem first_violation_only_counterexample:
  "validate (no_props\<lparr>subDomain := Some (js ''app''),
       additionalEnvironmentVariables := Some
         [\<lparr>key = js ''DB_PASSWORD'', var_value = SecretValue (js ''mysecret-ab12cd'')\<rparr>]\<rparr>)
     = Inl (Error subDomain_message)
   \<and> violations (no_props\<lparr>subDomain := Some (js ''app''),
       additionalEnvironmentVariables := Some
         [\<lparr>key = js ''DB_PASSWORD'', var_value = SecretValue (js ''mysecret-ab12cd'')\<rparr>]\<rparr>)
     = [Error subDomain_message, Error (secretName_message [js ''mysecret-ab12cd''])]"
  by (simp add: validate_def violations_def vpc_conflict_def internalAlb_conflict_def
      subDomain_conflict_def setupEmail_conflict_def secretName_conflict_def filtered_def
      no_props_def with_default_def truthy_string_def truthy_bool_def is_set_def
      is_secret_reference_def hyphen_and_six_def js_def hyphen_def line_terminator_def)

text \<open>
  C10, amended. For a configuration that leaves out \<open>useCloudFront\<close> (so the CDN is enabled
  by default), has no \<open>domainName\<close>, leaves \<open>internalAlb\<close> unset and breaks none of the
  other conflict rules, the checks add the warning about the load balancer without
  encryption, although the stack creates the load balancer with CloudFront. The condition
  of the warning reads \<open>props.useCloudFront\<close> as supplied, not the defaulted value: the
  same configuration with \<open>useCloudFront: true\<close> written out creates the same load balancer
  and gets no warning.
\<close>

theorem default_cloudfront_still_warns:
  assumes "useCloudFront p = None" "domainName p = None" "internalAlb p = None"
    and "vpc_conflict p = False" "subDomain_conflict p = False"
    and "setupEmail_conflict p = False" "secretName_conflict p = False"
  shows "validate p = Inr [albWithoutEncryption]
    \<and> alb p = AlbWithCloudFront
    \<and> validate (p\<lparr>useCloudFront := Some True\<rparr>) = Inr []
    \<and> alb (p\<lparr>useCloudFront := Some True\<rparr>) = AlbWithCloudFront"
proof -
  have "validate p = Inr [albWithoutEncryption]"
    using assms
    by (simp add: validate_def internalAlb_conflict_def unencrypted_alb_def with_default_def
        truthy_bool_def is_set_def)
  moreover have "validate (p\<lparr>useCloudFront := Some True\<rparr>) = Inr []"
    using assms
    by (simp add: validate_def conflicts_useCloudFront_update internalAlb_conflict_def
        unencrypted_alb_def with_default_def truthy_bool_def is_set_def)
  moreover have "alb p = AlbWithCloudFront" "alb (p\<lparr>useCloudFront := Some True\<rparr>) = AlbWithCloudFront"
    using assms by (simp_all add: alb_def with_default_def)
  ultimately show ?thesis by simp
qed

theorem default_cloudfront_still_warns_witness:
  "validate no_props = Inr [albWithoutEncryption]
   \<and> alb no_props = AlbWithCloudFront
   \<and> validate (no_props\<lparr>useCloudFront := Some True\<rparr>) = Inr []
   \<and> alb (no_props\<lparr>useCloudFront := Some True\<rparr>) = AlbWithCloudFront"
  by (rule default_cloudfront_still_warns)
     (simp_all add: no_props_def vpc_conflict_def subDomain_conflict_def
        setupEmail_conflict_def secretName_conflict_def filtered_def with_default_def
        truthy_string_def truthy_bool_def is_set_def)

text \<open>
  The claim as stated fails where the internal load balancer is declined in so many words:
  with \<open>useCloudFront\<close> left out, no \<open>domainName\<close> and \<open>internalAlb: false\<close>, the second
  check raises its error and no warning is returned.
\<close>

theorem default_cloudfront_still_warns_counterexample:
  "validate (no_props\<lparr>internalAlb := Some False\<rparr>) = Inl (Error internalAlb_message)"
  by (simp add: validate_def vpc_conflict_def internalAlb_conflict_def no_props_def
      with_default_def truthy_string_def is_set_def)

end
